theory Spec2Isabelle
  imports Main
begin

section \<open>The outside world\<close>

text \<open>
  \<^verbatim>\<open>benchmark.py\<close> talks to three libraries: an HTTP client (\<^verbatim>\<open>requests\<close>,
  \<^verbatim>\<open>aiohttp\<close>), an HTML parser (\<^verbatim>\<open>BeautifulSoup\<close>) and \<^verbatim>\<open>urljoin\<close>. They are not
  code of the repository, so the crawlers take them as a parameter: one GET of a URL
  times out, fails to connect, or is answered with a status code and a body; a page's
  text determines the \<^verbatim>\<open>href\<close>s of its anchors in document order, its title and its
  body text. A run sees one fixed world: the same URL gives the same answer each time.
  The parser is taken to return on every text: an exception raised inside the parsing
  of a page is not modelled.
\<close>

datatype http_result = Timeout | ConnectionError | Response nat string

record world =
  http_get :: "string \<Rightarrow> http_result"
  anchors :: "string \<Rightarrow> string list"
  title_text :: "string \<Rightarrow> string"
  body_text :: "string \<Rightarrow> string"
  urljoin :: "string \<Rightarrow> string \<Rightarrow> string"

text \<open>The exceptions the HTTP calls raise, as values.\<close>

datatype exn = TimeoutExc | ConnectionExc | HTTPError nat

definition get_response :: "world \<Rightarrow> string \<Rightarrow> exn + nat \<times> string" where
  "get_response w url =
     (case http_get w url of
        Timeout \<Rightarrow> Inl TimeoutExc
      | ConnectionError \<Rightarrow> Inl ConnectionExc
      | Response status body \<Rightarrow> Inr (status, body))"

text \<open>
  \<^verbatim>\<open>Response.raise_for_status()\<close> of \<^verbatim>\<open>requests\<close> raises \<^verbatim>\<open>HTTPError\<close> for the
  client and server error codes, 400 to 599, and returns for every other code.
\<close>

definition raise_for_status :: "nat \<times> string \<Rightarrow> exn + unit" where
  "raise_for_status r =
     (if 400 \<le> fst r \<and> fst r < 600 then Inl (HTTPError (fst r)) else Inr ())"

text \<open>\<^verbatim>\<open>str.startswith\<close>.\<close>

definition startswith :: "string \<Rightarrow> string \<Rightarrow> bool" where
  "startswith s p \<longleftrightarrow> take (length p) s = p"

section \<open>ThreadedCrawler\<close>

text \<open>
  The object's fields. \<^verbatim>\<open>collection\<close> is the \<^verbatim>\<open>webpages\<close> collection of the
  document store, \<open>None\<close> when \<^verbatim>\<open>MONGODB_URI\<close> is not set. \<open>requested\<close> is not a
  field of the class: it records the effect of \<^verbatim>\<open>fetch\<close>, the URLs a GET was issued
  for, oldest first. \<^verbatim>\<open>start_time\<close> and the elapsed time the crawl methods return are
  wall-clock readings and are left out.
\<close>

record page_record =
  pr_url :: string
  pr_title :: string
  pr_content :: string

record ThreadedCrawler =
  queue :: "string list"
  visited :: "string set"
  max_pages :: int
  pages_crawled :: int
  collection :: "page_record list option"
  requested :: "string list"

text \<open>
  \<^verbatim>\<open>__init__\<close> (lines 27-37). \<open>store\<close> is the content of the \<^verbatim>\<open>webpages\<close> collection
  when the engine is constructed (\<open>None\<close>: no store configured);
  \<^verbatim>\<open>delete_many({})\<close> empties it.
\<close>

definition ThreadedCrawler_init ::
    "string \<Rightarrow> int \<Rightarrow> page_record list option \<Rightarrow> ThreadedCrawler" where
  "ThreadedCrawler_init seed_url maxp store =
     \<lparr> queue = [seed_url], visited = {}, max_pages = maxp, pages_crawled = 0,
       collection = (case store of None \<Rightarrow> None | Some docs \<Rightarrow> Some []),
       requested = [] \<rparr>"

text \<open>
  \<^verbatim>\<open>fetch\<close> (lines 39-45): the bare \<^verbatim>\<open>except\<close> turns every exception of the body
  into the empty string.
\<close>

definition fetch :: "world \<Rightarrow> string \<Rightarrow> string" where
  "fetch w url =
     (case get_response w url of
        Inl e \<Rightarrow> []
      | Inr r \<Rightarrow> (case raise_for_status r of Inl e \<Rightarrow> [] | Inr u \<Rightarrow> snd r))"

text \<open>\<^verbatim>\<open>parse\<close> (lines 47-60): the optional insert, then the loop over the anchors.\<close>

definition insert_one :: "world \<Rightarrow> ThreadedCrawler \<Rightarrow> string \<Rightarrow> string \<Rightarrow> ThreadedCrawler" where
  "insert_one w s url html =
     (case collection s of
        None \<Rightarrow> s
      | Some docs \<Rightarrow>
          s\<lparr>collection := Some (docs @
            [\<lparr> pr_url = url, pr_title = title_text w html,
               pr_content = take 500 (body_text w html) \<rparr>])\<rparr>)"

definition enqueue_href :: "ThreadedCrawler \<Rightarrow> string \<Rightarrow> ThreadedCrawler" where
  "enqueue_href s href =
     (if startswith href ''http'' \<and> href \<notin> visited s
      then s\<lparr>queue := queue s @ [href]\<rparr> else s)"

definition parse :: "world \<Rightarrow> ThreadedCrawler \<Rightarrow> string \<Rightarrow> string \<Rightarrow> ThreadedCrawler" where
  "parse w s url html = foldl enqueue_href (insert_one w s url html) (anchors w html)"

text \<open>
  One iteration of the loop of \<^verbatim>\<open>crawl_single\<close> (lines 65-70), run when the loop
  condition holds.
\<close>

definition popleft :: "ThreadedCrawler \<Rightarrow> string \<times> ThreadedCrawler" where
  "popleft s =
     (hd (queue s), s\<lparr>queue := tl (queue s), visited := insert (hd (queue s)) (visited s)\<rparr>)"

definition single_iteration :: "world \<Rightarrow> ThreadedCrawler \<Rightarrow> ThreadedCrawler" where
  "single_iteration w s =
     (let (url, s1) = popleft s;
          html = fetch w url;
          s2 = s1\<lparr>requested := requested s1 @ [url]\<rparr>
      in if html \<noteq> [] then
           (let s3 = parse w s2 url html in s3\<lparr>pages_crawled := pages_crawled s3 + 1\<rparr>)
         else s2)"

lemma foldl_enqueue_href_frame:
  "visited (foldl enqueue_href s hs) = visited s \<and>
   max_pages (foldl enqueue_href s hs) = max_pages s \<and>
   pages_crawled (foldl enqueue_href s hs) = pages_crawled s \<and>
   collection (foldl enqueue_href s hs) = collection s \<and>
   requested (foldl enqueue_href s hs) = requested s"
  by (induction hs arbitrary: s) (simp_all add: enqueue_href_def)

lemma foldl_enqueue_href_queue:
  "queue (foldl enqueue_href s hs) =
     queue s @ filter (\<lambda>h. startswith h ''http'' \<and> h \<notin> visited s) hs"
proof (induction hs arbitrary: s)
  case Nil
  show ?case by simp
next
  case (Cons h hs)
  have v: "visited (enqueue_href s h) = visited s"
    by (simp add: enqueue_href_def)
  show ?case
    by (simp add: Cons.IH v) (simp add: enqueue_href_def)
qed

lemma insert_one_frame:
  "queue (insert_one w s url html) = queue s \<and>
   visited (insert_one w s url html) = visited s \<and>
   max_pages (insert_one w s url html) = max_pages s \<and>
   pages_crawled (insert_one w s url html) = pages_crawled s \<and>
   requested (insert_one w s url html) = requested s"
  by (simp add: insert_one_def split: option.splits)

lemma parse_frame:
  "visited (parse w s url html) = visited s \<and>
   max_pages (parse w s url html) = max_pages s \<and>
   pages_crawled (parse w s url html) = pages_crawled s \<and>
   requested (parse w s url html) = requested s"
  by (simp add: parse_def foldl_enqueue_href_frame insert_one_frame)

lemma parse_queue:
  "queue (parse w s url html) =
     queue s @ filter (\<lambda>h. startswith h ''http'' \<and> h \<notin> visited s) (anchors w html)"
  by (simp add: parse_def foldl_enqueue_href_queue insert_one_frame)

lemma single_iteration_max_pages: "max_pages (single_iteration w s) = max_pages s"
  by (simp add: single_iteration_def popleft_def Let_def parse_frame)

lemma single_iteration_pages:
  "pages_crawled (single_iteration w s) =
     (if fetch w (hd (queue s)) \<noteq> [] then pages_crawled s + 1 else pages_crawled s)"
  by (simp add: single_iteration_def popleft_def Let_def parse_frame)

lemma single_iteration_queue:
  "queue (single_iteration w s) =
     (if fetch w (hd (queue s)) \<noteq> []
      then tl (queue s) @
        filter (\<lambda>h. startswith h ''http'' \<and> h \<notin> insert (hd (queue s)) (visited s))
          (anchors w (fetch w (hd (queue s))))
      else tl (queue s))"
  by (simp add: single_iteration_def popleft_def Let_def parse_frame parse_queue)

text \<open>
  \<^verbatim>\<open>crawl_single\<close> (lines 62-71). The loop ends: an iteration that fetches a page
  brings the counter one closer to the budget, and any other iteration shortens the
  queue.
\<close>

function crawl_single :: "world \<Rightarrow> ThreadedCrawler \<Rightarrow> ThreadedCrawler" where
  "crawl_single w s =
     (if queue s \<noteq> [] \<and> pages_crawled s < max_pages s
      then crawl_single w (single_iteration w s) else s)"
  by pat_completeness auto
termination
proof (relation "measures [\<lambda>(w, s). nat (max_pages s - pages_crawled s),
                            \<lambda>(w, s). length (queue s)]")
  show "wf (measures [\<lambda>(w, s). nat (max_pages s - pages_crawled s),
                      \<lambda>(w, s::ThreadedCrawler). length (queue s)])"
    by simp
next
  fix w :: world and s :: ThreadedCrawler
  assume "queue s \<noteq> [] \<and> pages_crawled s < max_pages s"
  then show "((w, single_iteration w s), (w, s))
      \<in> measures [\<lambda>(w, s). nat (max_pages s - pages_crawled s), \<lambda>(w, s). length (queue s)]"
    by (auto simp: single_iteration_max_pages single_iteration_pages single_iteration_queue)
qed

declare crawl_single.simps [simp del]

lemma crawl_single_unfold:
  "crawl_single w s =
     (if queue s \<noteq> [] \<and> pages_crawled s < max_pages s
      then crawl_single w (single_iteration w s) else s)"
  by (rule crawl_single.simps)

lemma crawl_single_continue:
  "queue s \<noteq> [] \<Longrightarrow> pages_crawled s < max_pages s \<Longrightarrow>
   crawl_single w s = crawl_single w (single_iteration w s)"
  by (simp add: crawl_single.simps [of w s])

lemma crawl_single_stop:
  "queue s = [] \<or> max_pages s \<le> pages_crawled s \<Longrightarrow> crawl_single w s = s"
  by (auto simp: crawl_single.simps [of w s])

lemma crawl_single_max_pages: "max_pages (crawl_single w s) = max_pages s"
proof (induction w s rule: crawl_single.induct)
  case (1 w s)
  show ?case
  proof (cases "queue s \<noteq> [] \<and> pages_crawled s < max_pages s")
    case True
    with 1 show ?thesis
      by (simp add: crawl_single_continue single_iteration_max_pages)
  next
    case False
    then have "crawl_single w s = s"
      by (auto simp: crawl_single_stop)
    then show ?thesis by simp
  qed
qed

lemma crawl_single_terminal:
  "queue (crawl_single w s) = [] \<or> max_pages s \<le> pages_crawled (crawl_single w s)"
proof (induction w s rule: crawl_single.induct)
  case (1 w s)
  show ?case
  proof (cases "queue s \<noteq> [] \<and> pages_crawled s < max_pages s")
    case True
    with 1 show ?thesis
      by (simp add: crawl_single_continue single_iteration_max_pages)
  next
    case False
    then have "crawl_single w s = s"
      by (auto simp: crawl_single_stop)
    with False show ?thesis by auto
  qed
qed

section \<open>The worker pool of \<^verbatim>\<open>crawl_threaded\<close>\<close>

text \<open>
  \<^verbatim>\<open>fetch_and_parse\<close> (lines 95-98) runs in a worker thread. The coordinator and the
  other workers can run between any two of its actions on the shared queue, so its
  progress is kept as a state: the GET is still to come, the anchors in the list are
  still to be looked at (one loop iteration of \<^verbatim>\<open>parse\<close> each), or it is done.
\<close>

datatype op_state = Fetching string | Parsing "string list" | Done

fun op_step :: "world \<Rightarrow> ThreadedCrawler \<Rightarrow> op_state \<Rightarrow> ThreadedCrawler \<times> op_state" where
  "op_step w s (Fetching url) =
     (let html = fetch w url;
          s1 = s\<lparr>requested := requested s @ [url]\<rparr>
      in if html \<noteq> [] then (insert_one w s1 url html, Parsing (anchors w html))
         else (s1, Done))"
| "op_step w s (Parsing []) = (s, Done)"
| "op_step w s (Parsing (href # rest)) = (enqueue_href s href, Parsing rest)"
| "op_step w s Done = (s, Done)"

text \<open>The same operation run without interruption, as the source writes it.\<close>

definition fetch_and_parse :: "world \<Rightarrow> ThreadedCrawler \<Rightarrow> string \<Rightarrow> ThreadedCrawler" where
  "fetch_and_parse w s url =
     (let html = fetch w url;
          s1 = s\<lparr>requested := requested s @ [url]\<rparr>
      in if html \<noteq> [] then parse w s1 url html else s1)"

text \<open>
  The coordinator (lines 75-93). \<open>ops\<close> holds every operation submitted to the
  executor, in submission order; a future is the index of its operation, and
  \<open>futures\<close> is the coordinator's list. The coordinator is at the \<^verbatim>\<open>while\<close> test
  (which includes the blocking \<^verbatim>\<open>wait\<close>), inside the \<^verbatim>\<open>for\<close> loop with the futures of
  \<^verbatim>\<open>done\<close> still to be handled, or past the loop, where leaving the \<^verbatim>\<open>with\<close> block
  waits for every submitted operation. \<^verbatim>\<open>done\<close> is a set in the source; its futures
  are handled here in the order of \<open>futures\<close>, which changes nothing in the crawler's
  fields, since handling one future does not depend on which one it is.
\<close>

datatype main_pc = AtWhile | InFor "nat list" | Shutdown

record pool =
  crawler :: ThreadedCrawler
  ops :: "op_state list"
  futures :: "nat list"
  pc :: main_pc

text \<open>Lines 79-81 and 90-92: pop a URL, mark it visited, submit its operation.\<close>

definition dispatch :: "pool \<Rightarrow> pool" where
  "dispatch p =
     (let (url, s1) = popleft (crawler p)
      in p\<lparr>crawler := s1, ops := ops p @ [Fetching url],
            futures := futures p @ [length (ops p)]\<rparr>)"

definition kickoff :: "ThreadedCrawler \<Rightarrow> int \<Rightarrow> pool" where
  "kickoff s max_workers =
     (dispatch ^^ nat (min (int (length (queue s))) max_workers))
       \<lparr>crawler = s, ops = [], futures = [], pc = AtWhile\<rparr>"

definition handle_done :: "pool \<Rightarrow> nat \<Rightarrow> pool" where
  "handle_done p fut =
     (let s = crawler p;
          p1 = p\<lparr>crawler := s\<lparr>pages_crawled := pages_crawled s + 1\<rparr>,
                 futures := remove1 fut (futures p)\<rparr>
      in if queue (crawler p1) \<noteq> [] then dispatch p1 else p1)"

definition main_step :: "pool \<Rightarrow> pool" where
  "main_step p =
     (case pc p of
        AtWhile \<Rightarrow>
          if futures p \<noteq> [] \<and> pages_crawled (crawler p) < max_pages (crawler p) then
            (let done = filter (\<lambda>i. ops p ! i = Done) (futures p)
             in if done = [] then p else p\<lparr>pc := InFor done\<rparr>)
          else p\<lparr>pc := Shutdown\<rparr>
      | InFor [] \<Rightarrow> p\<lparr>pc := AtWhile\<rparr>
      | InFor (fut # rest) \<Rightarrow> (handle_done p fut)\<lparr>pc := InFor rest\<rparr>
      | Shutdown \<Rightarrow> p)"

text \<open>
  Which thread moves next is not the program's choice: a run is driven by a schedule,
  a list of events. A worker event for an index that has no operation, or whose
  operation is done, changes nothing; a coordinator event while \<^verbatim>\<open>wait\<close> blocks
  changes nothing.
\<close>

datatype event = Thread nat | Coordinator

definition pool_step :: "world \<Rightarrow> pool \<Rightarrow> event \<Rightarrow> pool" where
  "pool_step w p ev =
     (case ev of
        Thread i \<Rightarrow>
          if i < length (ops p) then
            (let (s1, o1) = op_step w (crawler p) (ops p ! i)
             in p\<lparr>crawler := s1, ops := (ops p)[i := o1]\<rparr>)
          else p
      | Coordinator \<Rightarrow> main_step p)"

definition pool_run :: "world \<Rightarrow> event list \<Rightarrow> pool \<Rightarrow> pool" where
  "pool_run w sched p = foldl (pool_step w) p sched"

text \<open>
  What a call gives: an exception, the object's state when the method returns, or
  nothing yet when the schedule ends before the method returns.
\<close>

datatype python_error = ValueError

datatype 'a outcome = Raised python_error | Returned 'a | Unfinished

definition pool_finished :: "pool \<Rightarrow> bool" where
  "pool_finished p \<longleftrightarrow> pc p = Shutdown \<and> list_all (\<lambda>x. x = Done) (ops p)"

text \<open>
  \<^verbatim>\<open>crawl_threaded\<close> (lines 73-93). \<^verbatim>\<open>ThreadPoolExecutor\<close> raises \<^verbatim>\<open>ValueError\<close> when
  \<^verbatim>\<open>max_workers\<close> is not positive.
\<close>

definition crawl_threaded ::
    "world \<Rightarrow> int \<Rightarrow> event list \<Rightarrow> ThreadedCrawler \<Rightarrow> ThreadedCrawler outcome" where
  "crawl_threaded w max_workers sched s =
     (if max_workers \<le> 0 then Raised ValueError
      else (let p = pool_run w sched (kickoff s max_workers)
            in if pool_finished p then Returned (crawler p) else Unfinished))"

section \<open>AsyncCrawler\<close>

text \<open>
  The fields of the class, and \<open>arequested\<close> for the GETs issued, as above.
\<close>

record AsyncCrawler =
  aqueue :: "string list"
  avisited :: "string set"
  amax_pages :: int
  pages :: int
  arequested :: "string list"

definition AsyncCrawler_init :: "string \<Rightarrow> int \<Rightarrow> AsyncCrawler" where
  "AsyncCrawler_init seed_url maxp =
     \<lparr> aqueue = [seed_url], avisited = {}, amax_pages = maxp, pages = 0, arequested = [] \<rparr>"

text \<open>
  \<^verbatim>\<open>fetch\<close> (lines 109-114): the text of whatever response arrives; the session is
  created without \<^verbatim>\<open>raise_for_status\<close>, so a status code raises nothing.
\<close>

definition async_fetch :: "world \<Rightarrow> string \<Rightarrow> string" where
  "async_fetch w url = (case get_response w url of Inl e \<Rightarrow> [] | Inr r \<Rightarrow> snd r)"

text \<open>\<^verbatim>\<open>parse\<close> (lines 116-121).\<close>

definition async_enqueue_href :: "world \<Rightarrow> string \<Rightarrow> AsyncCrawler \<Rightarrow> string \<Rightarrow> AsyncCrawler" where
  "async_enqueue_href w url s a =
     (let href = urljoin w url a
      in if startswith href ''http'' \<and> href \<notin> avisited s
         then s\<lparr>aqueue := aqueue s @ [href]\<rparr> else s)"

definition async_parse :: "world \<Rightarrow> AsyncCrawler \<Rightarrow> string \<Rightarrow> string \<Rightarrow> AsyncCrawler" where
  "async_parse w s url html = foldl (async_enqueue_href w url) s (anchors w html)"

text \<open>
  \<^verbatim>\<open>worker\<close> (lines 123-131) is a coroutine. The semaphore has as many slots as there
  are workers, so acquiring it never waits, and the coroutine gives up control only
  while it awaits the response. A worker is therefore awaiting the response for a URL
  or finished, and it runs in two pieces: from the loop test to the GET
  (\<open>worker_head\<close>), and from the response to the end of the iteration
  (\<open>worker_tail\<close>), after which the loop test follows at once.
\<close>

datatype task = Awaiting string | Finished

definition worker_head :: "AsyncCrawler \<Rightarrow> AsyncCrawler \<times> task" where
  "worker_head s =
     (if pages s < amax_pages s \<and> aqueue s \<noteq> [] then
        (let url = hd (aqueue s)
         in (s\<lparr>aqueue := tl (aqueue s), avisited := insert url (avisited s),
               arequested := arequested s @ [url]\<rparr>, Awaiting url))
      else (s, Finished))"

definition worker_tail :: "world \<Rightarrow> AsyncCrawler \<Rightarrow> string \<Rightarrow> AsyncCrawler" where
  "worker_tail w s url =
     (let html = async_fetch w url;
          s1 = (if html \<noteq> [] then async_parse w s url html else s)
      in s1\<lparr>pages := pages s1 + 1\<rparr>)"

text \<open>
  \<^verbatim>\<open>crawl\<close> (lines 133-140). The event loop starts the tasks in the order of their
  creation, each up to its first await; after that the order in which responses
  arrive decides which worker goes on, and is given as a schedule of worker indices.
  An index that names no awaiting worker changes nothing. \<^verbatim>\<open>asyncio.Semaphore\<close> raises
  \<^verbatim>\<open>ValueError\<close> for a negative value.
\<close>

fun spawn :: "nat \<Rightarrow> AsyncCrawler \<Rightarrow> AsyncCrawler \<times> task list" where
  "spawn 0 s = (s, [])"
| "spawn (Suc n) s =
     (let (s1, t) = worker_head s; (s2, ts) = spawn n s1 in (s2, t # ts))"

definition resume :: "world \<Rightarrow> AsyncCrawler \<times> task list \<Rightarrow> nat \<Rightarrow> AsyncCrawler \<times> task list" where
  "resume w c i =
     (let (s, ts) = c
      in if i < length ts then
           (case ts ! i of
              Awaiting url \<Rightarrow>
                (let (s1, t) = worker_head (worker_tail w s url) in (s1, ts[i := t]))
            | Finished \<Rightarrow> (s, ts))
         else (s, ts))"

definition gather :: "world \<Rightarrow> nat list \<Rightarrow> AsyncCrawler \<times> task list \<Rightarrow> AsyncCrawler \<times> task list" where
  "gather w sched c = foldl (resume w) c sched"

definition crawl :: "world \<Rightarrow> int \<Rightarrow> nat list \<Rightarrow> AsyncCrawler \<Rightarrow> AsyncCrawler outcome" where
  "crawl w concurrency sched s =
     (if concurrency < 0 then Raised ValueError
      else (let (s1, ts) = gather w sched (spawn (nat concurrency) s)
            in if list_all (\<lambda>t. t = Finished) ts then Returned s1 else Unfinished))"

section \<open>The benchmark\<close>



text \<open>
  \<^verbatim>\<open>main\<close> (lines 157-166) constructs one \<^verbatim>\<open>ThreadedCrawler\<close> and one
  \<^verbatim>\<open>AsyncCrawler\<close> and calls their crawl methods again and again through
  \<^verbatim>\<open>time_fn\<close>. A sequence of calls on one object: each call starts where the call
  before it returned, and an exception or a call that has not returned ends the
  sequence.
\<close>

datatype threaded_call = CrawlSingle | CrawlThreaded int "event list"

fun run_calls :: "world \<Rightarrow> threaded_call list \<Rightarrow> ThreadedCrawler \<Rightarrow> ThreadedCrawler outcome" where
  "run_calls w [] s = Returned s"
| "run_calls w (CrawlSingle # calls) s = run_calls w calls (crawl_single w s)"
| "run_calls w (CrawlThreaded max_workers sched # calls) s =
     (case crawl_threaded w max_workers sched s of
        Raised e \<Rightarrow> Raised e
      | Returned s1 \<Rightarrow> run_calls w calls s1
      | Unfinished \<Rightarrow> Unfinished)"

fun run_crawls :: "world \<Rightarrow> (int \<times> nat list) list \<Rightarrow> AsyncCrawler \<Rightarrow> AsyncCrawler outcome" where
  "run_crawls w [] s = Returned s"
| "run_crawls w ((concurrency, sched) # calls) s =
     (case crawl w concurrency sched s of
        Raised e \<Rightarrow> Raised e
      | Returned s1 \<Rightarrow> run_crawls w calls s1
      | Unfinished \<Rightarrow> Unfinished)"

subsection \<open>Frames of the asyncio crawler\<close>

lemma foldl_async_enqueue_href_frame:
  "avisited (foldl (async_enqueue_href w url) s hs) = avisited s \<and>
   amax_pages (foldl (async_enqueue_href w url) s hs) = amax_pages s \<and>
   pages (foldl (async_enqueue_href w url) s hs) = pages s \<and>
   arequested (foldl (async_enqueue_href w url) s hs) = arequested s"
  by (induction hs arbitrary: s) (simp_all add: async_enqueue_href_def Let_def)


lemma async_parse_frame:
  "avisited (async_parse w s url html) = avisited s \<and>
   amax_pages (async_parse w s url html) = amax_pages s \<and>
   pages (async_parse w s url html) = pages s \<and>
   arequested (async_parse w s url html) = arequested s"
  by (simp add: async_parse_def foldl_async_enqueue_href_frame)


lemma worker_tail_frame:
  "pages (worker_tail w s url) = pages s + 1 \<and>
   amax_pages (worker_tail w s url) = amax_pages s \<and>
   avisited (worker_tail w s url) = avisited s \<and>
   arequested (worker_tail w s url) = arequested s"
  by (simp add: worker_tail_def Let_def async_parse_frame)

subsection \<open>What a sequential run requests\<close>


subsection \<open>Counting in the asyncio crawler\<close>

definition in_flight :: "task list \<Rightarrow> nat" where
  "in_flight ts = length (filter (\<lambda>t. t \<noteq> Finished) ts)"

lemma in_flight_simps:
  "in_flight [] = 0"
  "in_flight (t # ts) = (if t = Finished then 0 else 1) + in_flight ts"
  by (simp_all add: in_flight_def)

lemma in_flight_update:
  "i < length ts \<Longrightarrow> ts ! i \<noteq> Finished \<Longrightarrow>
   in_flight (ts[i := t]) + 1 = in_flight ts + (if t = Finished then 0 else 1)"
proof (induction ts arbitrary: i)
  case Nil
  then show ?case by simp
next
  case (Cons a ts)
  show ?case
  proof (cases i)
    case 0
    with Cons.prems show ?thesis by (simp add: in_flight_simps)
  next
    case (Suc j)
    with Cons.prems have "in_flight (ts[j := t]) + 1 = in_flight ts + (if t = Finished then 0 else 1)"
      by (intro Cons.IH) simp_all
    with Suc show ?thesis by (simp add: in_flight_simps)
  qed
qed

lemma in_flight_zero: "list_all (\<lambda>t. t = Finished) ts \<Longrightarrow> in_flight ts = 0"
  by (induction ts) (simp_all add: in_flight_simps)

lemma worker_head_effect:
  assumes "worker_head s = (s1, t)"
  shows "pages s1 = pages s" and "amax_pages s1 = amax_pages s"
    and "length (arequested s1) = length (arequested s) + (if t = Finished then 0 else 1)"
    and "t \<noteq> Finished \<Longrightarrow> pages s < amax_pages s"
  using assms by (auto simp: worker_head_def Let_def split: if_splits)

lemma spawn_count:
  "spawn n s = (s1, ts) \<Longrightarrow>
   pages s1 = pages s \<and> amax_pages s1 = amax_pages s \<and> length ts = n \<and>
   length (arequested s1) = length (arequested s) + in_flight ts"
proof (induction n arbitrary: s s1 ts)
  case 0
  then show ?case by (simp add: in_flight_simps)
next
  case (Suc n)
  obtain s2 t where h: "worker_head s = (s2, t)" by (cases "worker_head s")
  obtain s3 ts3 where sp: "spawn n s2 = (s3, ts3)" by (cases "spawn n s2")
  from Suc.prems h sp have e: "s1 = s3" "ts = t # ts3" by simp_all
  from Suc.IH [OF sp] worker_head_effect(1-3) [OF h] e show ?case
    by (simp add: in_flight_simps)
qed

lemma resume_count:
  assumes "resume w (s, ts) i = (s1, ts1)"
  shows "pages s1 + int (in_flight ts1) + int (length (arequested s)) =
         pages s + int (in_flight ts) + int (length (arequested s1))"
    and "amax_pages s1 = amax_pages s" and "length ts1 = length ts"
proof -
  have "(pages s1 + int (in_flight ts1) + int (length (arequested s)) =
         pages s + int (in_flight ts) + int (length (arequested s1))) \<and>
        amax_pages s1 = amax_pages s \<and> length ts1 = length ts"
  proof (cases "i < length ts \<and> ts ! i \<noteq> Finished")
    case True
    then obtain url where u: "ts ! i = Awaiting url" by (cases "ts ! i") simp_all
    obtain s2 t where h: "worker_head (worker_tail w s url) = (s2, t)"
      by (cases "worker_head (worker_tail w s url)")
    from assms True u h have e: "s1 = s2" "ts1 = ts[i := t]"
      by (simp_all add: resume_def)
    from True have "in_flight (ts[i := t]) + 1 = in_flight ts + (if t = Finished then 0 else 1)"
      by (intro in_flight_update) simp_all
    with worker_head_effect(1-3) [OF h] e show ?thesis
      by (simp add: worker_tail_frame)
  next
    case False
    with assms have "s1 = s \<and> ts1 = ts"
      by (auto simp: resume_def split: task.splits)
    then show ?thesis by simp
  qed
  then show "pages s1 + int (in_flight ts1) + int (length (arequested s)) =
         pages s + int (in_flight ts) + int (length (arequested s1))"
    and "amax_pages s1 = amax_pages s" and "length ts1 = length ts" by simp_all
qed

lemma gather_count:
  "gather w sched (s, ts) = (s1, ts1) \<Longrightarrow>
   pages s1 + int (in_flight ts1) + int (length (arequested s)) =
     pages s + int (in_flight ts) + int (length (arequested s1)) \<and>
   amax_pages s1 = amax_pages s \<and> length ts1 = length ts"
proof (induction sched arbitrary: s ts)
  case Nil
  then show ?case by (simp add: gather_def)
next
  case (Cons i sched)
  obtain s2 ts2 where r: "resume w (s, ts) i = (s2, ts2)" by (cases "resume w (s, ts) i")
  with Cons.prems have "gather w sched (s2, ts2) = (s1, ts1)"
    by (simp add: gather_def)
  from Cons.IH [OF this] resume_count [OF r] show ?case by simp
qed

lemma crawl_count:
  assumes "crawl w n sched s = Returned s1"
  shows "pages s1 - pages s = int (length (arequested s1)) - int (length (arequested s))"
proof -
  obtain s0 ts0 where sp: "spawn (nat n) s = (s0, ts0)" by (cases "spawn (nat n) s")
  obtain s2 ts2 where g: "gather w sched (s0, ts0) = (s2, ts2)"
    by (cases "gather w sched (s0, ts0)")
  from assms sp g have f: "list_all (\<lambda>t. t = Finished) ts2" and e: "s1 = s2"
    by (auto simp: crawl_def split: if_splits)
  from spawn_count [OF sp] gather_count [OF g] in_flight_zero [OF f] e show ?thesis
    by simp
qed

subsection \<open>The budget in the asyncio crawler\<close>

lemma in_flight_replicate: "in_flight (replicate n Finished) = 0"
  by (induction n) (simp_all add: in_flight_simps)

lemma in_flight_pos: "i < length ts \<Longrightarrow> ts ! i \<noteq> Finished \<Longrightarrow> 0 < in_flight ts"
proof -
  assume "i < length ts" and "ts ! i \<noteq> Finished"
  then have "ts ! i \<in> set (filter (\<lambda>t. t \<noteq> Finished) ts)" by simp
  then have "filter (\<lambda>t. t \<noteq> Finished) ts \<noteq> []" by (metis empty_iff empty_set)
  then show ?thesis by (simp add: in_flight_def)
qed

lemma spawn_idle:
  assumes "\<not> (pages s < amax_pages s \<and> aqueue s \<noteq> [])"
  shows "spawn n s = (s, replicate n Finished)"
proof -
  from assms have h: "worker_head s = (s, Finished)"
    by (auto simp: worker_head_def)
  show ?thesis
    by (induction n) (simp_all add: h)
qed

text \<open>
  The states that keep the budget, as for the threaded engine below, and what holds
  while the workers run: at most one worker awaits a response, the counter is below
  the budget while one does, and within it always.
\<close>

definition async_keeps_budget :: "AsyncCrawler \<Rightarrow> bool" where
  "async_keeps_budget s \<longleftrightarrow>
     pages s \<le> amax_pages s \<and> (length (aqueue s) \<le> 1 \<or> amax_pages s \<le> pages s)"

definition async_inv :: "AsyncCrawler \<times> task list \<Rightarrow> bool" where
  "async_inv c \<longleftrightarrow>
     pages (fst c) \<le> amax_pages (fst c) \<and> in_flight (snd c) \<le> 1 \<and>
     (0 < in_flight (snd c) \<longrightarrow> pages (fst c) < amax_pages (fst c)) \<and>
     (in_flight (snd c) = 0 \<longrightarrow>
        length (aqueue (fst c)) \<le> 1 \<or> amax_pages (fst c) \<le> pages (fst c))"

lemma spawn_inv:
  assumes "async_keeps_budget s"
  shows "async_inv (spawn n s) \<and> amax_pages (fst (spawn n s)) = amax_pages s"
proof (cases "pages s < amax_pages s \<and> aqueue s \<noteq> [] \<and> 0 < n")
  case False
  show ?thesis
  proof (cases n)
    case 0
    with assms show ?thesis
      by (simp add: async_inv_def async_keeps_budget_def in_flight_simps)
  next
    case (Suc m)
    with False have "spawn n s = (s, replicate n Finished)"
      by (intro spawn_idle) simp
    with assms show ?thesis
      by (simp add: async_inv_def async_keeps_budget_def in_flight_replicate)
  qed
next
  case True
  then obtain m where n: "n = Suc m" by (cases n) simp_all
  from True assms obtain url where q: "aqueue s = [url]"
    by (cases "aqueue s") (auto simp: async_keeps_budget_def)
  define s2 where "s2 = s\<lparr>aqueue := [], avisited := insert url (avisited s),
      arequested := arequested s @ [url]\<rparr>"
  from True q have h: "worker_head s = (s2, Awaiting url)"
    by (simp add: worker_head_def s2_def Let_def)
  have "spawn m s2 = (s2, replicate m Finished)"
    by (rule spawn_idle) (simp add: s2_def)
  with n h have "spawn n s = (s2, Awaiting url # replicate m Finished)"
    by simp
  with True show ?thesis
    by (simp add: async_inv_def s2_def in_flight_simps in_flight_replicate)
qed

lemma resume_inv:
  assumes "async_inv (s, ts)"
  shows "async_inv (resume w (s, ts) i) \<and> amax_pages (fst (resume w (s, ts) i)) = amax_pages s"
proof (cases "i < length ts \<and> ts ! i \<noteq> Finished")
  case True
  then obtain url where u: "ts ! i = Awaiting url" by (cases "ts ! i") simp_all
  obtain s2 t where h: "worker_head (worker_tail w s url) = (s2, t)"
    by (cases "worker_head (worker_tail w s url)")
  from True u h have e: "resume w (s, ts) i = (s2, ts[i := t])"
    by (simp add: resume_def)
  from True have f: "in_flight (ts[i := t]) + 1 = in_flight ts + (if t = Finished then 0 else 1)"
    by (intro in_flight_update) simp_all
  from True have pos: "0 < in_flight ts" by (intro in_flight_pos [of i]) simp_all
  with assms have lt: "pages s < amax_pages s" and one: "in_flight ts \<le> 1"
    by (simp_all add: async_inv_def)
  from worker_head_effect [OF h] have k:
    "pages s2 = pages s + 1" "amax_pages s2 = amax_pages s"
    "t \<noteq> Finished \<Longrightarrow> pages s + 1 < amax_pages s"
    by (simp_all add: worker_tail_frame)
  have idle: "length (aqueue s2) \<le> 1 \<or> amax_pages s2 \<le> pages s2" if "t = Finished"
    using h that by (auto simp: worker_head_def Let_def split: if_splits)
  from e f pos lt one k idle show ?thesis
    by (auto simp: async_inv_def split: if_splits)
next
  case False
  then have "resume w (s, ts) i = (s, ts)"
    by (auto simp: resume_def split: task.splits)
  with assms show ?thesis by simp
qed

lemma gather_inv:
  "async_inv c \<Longrightarrow>
   async_inv (gather w sched c) \<and> amax_pages (fst (gather w sched c)) = amax_pages (fst c)"
proof (induction sched arbitrary: c)
  case Nil
  then show ?case by (simp add: gather_def)
next
  case (Cons i sched)
  obtain s ts where c: "c = (s, ts)" by (cases c)
  from Cons.prems c have r: "async_inv (resume w c i)"
    and m: "amax_pages (fst (resume w c i)) = amax_pages (fst c)"
    using resume_inv [of s ts w i] by simp_all
  have "gather w (i # sched) c = gather w sched (resume w c i)"
    by (simp add: gather_def)
  with Cons.IH [OF r] m show ?case by simp
qed

lemma crawl_keeps_budget:
  assumes "async_keeps_budget s" and "crawl w n sched s = Returned s1"
  shows "async_keeps_budget s1 \<and> amax_pages s1 = amax_pages s"
proof -
  let ?c = "gather w sched (spawn (nat n) s)"
  from assms(2) have f: "list_all (\<lambda>t. t = Finished) (snd ?c)" and e: "s1 = fst ?c"
    by (auto simp: crawl_def split_beta split: if_splits)
  from spawn_inv [OF assms(1), of "nat n"] have
    "async_inv ?c \<and> amax_pages (fst ?c) = amax_pages s"
    using gather_inv [of "spawn (nat n) s" w sched] by simp
  with in_flight_zero [OF f] e show ?thesis
    by (auto simp: async_inv_def async_keeps_budget_def)
qed

lemma crawl_budget:
  assumes "0 \<le> B" and "crawl w n sched (AsyncCrawler_init seed B) = Returned s1"
  shows "pages s1 \<le> B"
proof -
  have "async_keeps_budget (AsyncCrawler_init seed B)"
    using assms(1) by (simp add: async_keeps_budget_def AsyncCrawler_init_def)
  from crawl_keeps_budget [OF this assms(2)] show ?thesis
    by (simp add: async_keeps_budget_def AsyncCrawler_init_def)
qed

subsection \<open>The budget in the sequential loop\<close>

lemma crawl_single_budget:
  "pages_crawled s \<le> max_pages s \<Longrightarrow> pages_crawled (crawl_single w s) \<le> max_pages s"
proof (induction w s rule: crawl_single.induct)
  case (1 w s)
  show ?case
  proof (cases "queue s \<noteq> [] \<and> pages_crawled s < max_pages s")
    case True
    then have "pages_crawled (single_iteration w s) \<le> max_pages (single_iteration w s)"
      by (simp add: single_iteration_pages single_iteration_max_pages)
    with 1 True show ?thesis
      by (simp add: crawl_single_continue single_iteration_max_pages)
  next
    case False
    then have "crawl_single w s = s"
      by (auto simp: crawl_single_stop)
    with 1 show ?thesis by simp
  qed
qed

subsection \<open>The worker pool started with at most one URL in the queue\<close>

text \<open>
  Started with at most one URL in the queue, the pool never has more than one
  operation in flight: the kickoff submits at most one, and the coordinator submits
  at most one for each one it collects. \<open>pool_inv\<close> says so: every operation but
  perhaps the last is done and collected, the counter has grown from \<open>p0\<close> by the
  number of collected operations, the requests have grown from \<open>r0\<close> by the
  operations that are past their fetch, and with nothing in flight the queue is empty.
\<close>

fun fetched :: "op_state \<Rightarrow> nat" where
  "fetched (Fetching url) = 0"
| "fetched (Parsing hrefs) = 1"
| "fetched Done = 1"

definition pool_idle :: "nat \<Rightarrow> pool \<Rightarrow> op_state list \<Rightarrow> bool" where
  "pool_idle r0 p os \<longleftrightarrow>
     ops p = os \<and> futures p = [] \<and> queue (crawler p) = [] \<and>
     length (requested (crawler p)) = r0 + length os \<and>
     (pc p = AtWhile \<or> pc p = InFor [] \<or> pc p = Shutdown)"

definition pool_busy :: "nat \<Rightarrow> pool \<Rightarrow> op_state list \<Rightarrow> op_state \<Rightarrow> bool" where
  "pool_busy r0 p os x \<longleftrightarrow>
     ops p = os @ [x] \<and> futures p = [length os] \<and>
     length (requested (crawler p)) = r0 + length os + fetched x \<and>
     (pc p = AtWhile \<or> pc p = InFor [] \<or>
      (pc p = InFor [length os] \<and> x = Done \<and>
         pages_crawled (crawler p) < max_pages (crawler p)) \<or>
      (pc p = Shutdown \<and> max_pages (crawler p) \<le> pages_crawled (crawler p)))"

definition pool_inv :: "int \<Rightarrow> nat \<Rightarrow> pool \<Rightarrow> bool" where
  "pool_inv p0 r0 p \<longleftrightarrow>
     pages_crawled (crawler p) \<le> max_pages (crawler p) \<and>
     (\<exists>os. list_all (\<lambda>x. x = Done) os \<and>
        p0 + int (length os) = pages_crawled (crawler p) \<and>
        (pool_idle r0 p os \<or> (\<exists>x. pool_busy r0 p os x)))"

lemma op_step_frame:
  assumes "op_step w s x = (s1, x1)"
  shows "pages_crawled s1 = pages_crawled s" and "max_pages s1 = max_pages s"
    and "length (requested s1) + fetched x = length (requested s) + fetched x1"
  using assms
  by (induction w s x rule: op_step.induct)
     (auto simp: Let_def insert_one_frame enqueue_href_def split: if_splits)

lemma list_all_Done_nth: "list_all (\<lambda>x. x = Done) os \<Longrightarrow> i < length os \<Longrightarrow> os ! i = Done"
  by (simp add: list_all_length)

lemma thread_step_done:
  assumes "i < length (ops p)" and "ops p ! i = Done"
  shows "pool_step w p (Thread i) = p"
proof -
  have "(ops p)[i := Done] = ops p"
    using assms by (metis list_update_id)
  then show ?thesis
    using assms by (simp add: pool_step_def)
qed

lemma thread_step_inv:
  assumes "pool_inv p0 r0 p"
  shows "pool_inv p0 r0 (pool_step w p (Thread i))"
proof -
  from assms obtain os where le: "pages_crawled (crawler p) \<le> max_pages (crawler p)"
    and d: "list_all (\<lambda>x. x = Done) os" and n: "p0 + int (length os) = pages_crawled (crawler p)"
    and sh: "pool_idle r0 p os \<or> (\<exists>x. pool_busy r0 p os x)"
    by (auto simp: pool_inv_def)
  show ?thesis
  proof (cases "i < length (ops p)")
    case False
    then have "pool_step w p (Thread i) = p" by (simp add: pool_step_def)
    with assms show ?thesis by simp
  next
    case True
    from sh show ?thesis
    proof
      assume "pool_idle r0 p os"
      with d True have "ops p ! i = Done"
        by (simp add: pool_idle_def list_all_Done_nth)
      with True assms show ?thesis by (simp add: thread_step_done)
    next
      assume "\<exists>x. pool_busy r0 p os x"
      then obtain x where b: "pool_busy r0 p os x" by blast
      show ?thesis
      proof (cases "i < length os")
        case True
        with d b have "ops p ! i = Done"
          by (simp add: pool_busy_def list_all_Done_nth nth_append)
        with \<open>i < length (ops p)\<close> assms show ?thesis by (simp add: thread_step_done)
      next
        case False
        with \<open>i < length (ops p)\<close> b have i: "i = length os"
          by (simp add: pool_busy_def)
        obtain s1 x1 where st: "op_step w (crawler p) x = (s1, x1)"
          by (cases "op_step w (crawler p) x")
        from b i st have e: "pool_step w p (Thread i) = p\<lparr>crawler := s1, ops := os @ [x1]\<rparr>"
          by (simp add: pool_step_def pool_busy_def)
        have x1: "x = Done \<Longrightarrow> x1 = Done" using st by auto
        from b op_step_frame [OF st] x1 have "pool_busy r0 (p\<lparr>crawler := s1, ops := os @ [x1]\<rparr>) os x1"
          by (auto simp: pool_busy_def)
        with le d n op_step_frame(1,2) [OF st] e show ?thesis
          by (auto simp: pool_inv_def)
      qed
    qed
  qed
qed

lemma dispatch_frame:
  "pages_crawled (crawler (dispatch p)) = pages_crawled (crawler p) \<and>
   max_pages (crawler (dispatch p)) = max_pages (crawler p) \<and>
   requested (crawler (dispatch p)) = requested (crawler p) \<and>
   ops (dispatch p) = ops p @ [Fetching (hd (queue (crawler p)))] \<and>
   futures (dispatch p) = futures p @ [length (ops p)] \<and>
   pc (dispatch p) = pc p \<and>
   queue (crawler (dispatch p)) = tl (queue (crawler p))"
  by (simp add: dispatch_def popleft_def Let_def)

lemma handle_done_pages:
  "pages_crawled (crawler (handle_done p fut)) = pages_crawled (crawler p) + 1 \<and>
   max_pages (crawler (handle_done p fut)) = max_pages (crawler p) \<and>
   requested (crawler (handle_done p fut)) = requested (crawler p)"
  by (simp add: handle_done_def Let_def dispatch_frame)

lemma handle_done_shape:
  "ops (handle_done p fut) =
     (if queue (crawler p) \<noteq> [] then ops p @ [Fetching (hd (queue (crawler p)))] else ops p) \<and>
   futures (handle_done p fut) =
     (if queue (crawler p) \<noteq> [] then remove1 fut (futures p) @ [length (ops p)]
      else remove1 fut (futures p)) \<and>
   queue (crawler (handle_done p fut)) = tl (queue (crawler p))"
  by (simp add: handle_done_def Let_def dispatch_frame)

lemma main_step_inv:
  assumes "pool_inv p0 r0 p"
  shows "pool_inv p0 r0 (main_step p)"
proof -
  from assms obtain os where le: "pages_crawled (crawler p) \<le> max_pages (crawler p)"
    and d: "list_all (\<lambda>x. x = Done) os" and n: "p0 + int (length os) = pages_crawled (crawler p)"
    and sh: "pool_idle r0 p os \<or> (\<exists>x. pool_busy r0 p os x)"
    by (auto simp: pool_inv_def)
  from sh show ?thesis
  proof
    assume a: "pool_idle r0 p os"
    then have "pc p = AtWhile \<or> pc p = InFor [] \<or> pc p = Shutdown"
      by (simp add: pool_idle_def)
    then have "pool_idle r0 (main_step p) os"
      using a by (auto simp: main_step_def pool_idle_def)
    moreover have "crawler (main_step p) = crawler p"
      using a by (auto simp: main_step_def pool_idle_def)
    ultimately show ?thesis
      using le d n by (auto simp: pool_inv_def)
  next
    assume "\<exists>x. pool_busy r0 p os x"
    then obtain x where b: "pool_busy r0 p os x" by blast
    then have o: "ops p = os @ [x]" and f: "futures p = [length os]"
      and r: "length (requested (crawler p)) = r0 + length os + fetched x"
      by (simp_all add: pool_busy_def)
    from b consider
        (while) "pc p = AtWhile"
      | (for_end) "pc p = InFor []"
      | (for_one) "pc p = InFor [length os]" "x = Done"
          "pages_crawled (crawler p) < max_pages (crawler p)"
      | (shutdown) "pc p = Shutdown" "max_pages (crawler p) \<le> pages_crawled (crawler p)"
      by (auto simp: pool_busy_def)
    then show ?thesis
    proof cases
      case while
      have c: "crawler (main_step p) = crawler p"
        using while by (simp add: main_step_def Let_def)
      have "pool_busy r0 (main_step p) os x"
        using while b o f by (auto simp: main_step_def Let_def pool_busy_def)
      with c le d n show ?thesis by (auto simp: pool_inv_def)
    next
      case for_end
      then have "main_step p = p\<lparr>pc := AtWhile\<rparr>" by (simp add: main_step_def)
      moreover have "pool_busy r0 (p\<lparr>pc := AtWhile\<rparr>) os x"
        using b by (simp add: pool_busy_def)
      ultimately show ?thesis using le d n by (auto simp: pool_inv_def)
    next
      case for_one
      let ?q = "handle_done p (length os)"
      have m: "main_step p = ?q\<lparr>pc := InFor []\<rparr>"
        using for_one by (simp add: main_step_def)
      have d': "list_all (\<lambda>x. x = Done) (os @ [x])"
        using d for_one by simp
      have n': "p0 + int (length (os @ [x])) = pages_crawled (crawler ?q)"
        using n by (simp add: handle_done_pages)
      have le': "pages_crawled (crawler ?q) \<le> max_pages (crawler ?q)"
        using for_one by (simp add: handle_done_pages)
      have "pool_idle r0 (?q\<lparr>pc := InFor []\<rparr>) (os @ [x]) \<or>
            pool_busy r0 (?q\<lparr>pc := InFor []\<rparr>) (os @ [x]) (Fetching (hd (queue (crawler p))))"
        using o f r for_one
        by (simp add: pool_idle_def pool_busy_def handle_done_pages handle_done_shape)
      moreover have "crawler (?q\<lparr>pc := InFor []\<rparr>) = crawler ?q" by simp
      ultimately have "pool_inv p0 r0 (?q\<lparr>pc := InFor []\<rparr>)"
        using d' n' le' unfolding pool_inv_def by metis
      with m show ?thesis by simp
    next
      case shutdown
      then have "main_step p = p" by (simp add: main_step_def)
      with assms show ?thesis by simp
    qed
  qed
qed

lemma pool_step_inv: "pool_inv p0 r0 p \<Longrightarrow> pool_inv p0 r0 (pool_step w p ev)"
proof (cases ev)
  case (Thread i)
  assume "pool_inv p0 r0 p"
  with Thread show ?thesis by (simp add: thread_step_inv)
next
  case Coordinator
  assume "pool_inv p0 r0 p"
  then have "pool_inv p0 r0 (main_step p)" by (rule main_step_inv)
  with Coordinator show ?thesis by (simp add: pool_step_def)
qed

lemma pool_run_inv: "pool_inv p0 r0 p \<Longrightarrow> pool_inv p0 r0 (pool_run w sched p)"
  unfolding pool_run_def
  by (induction sched arbitrary: p) (simp_all add: pool_step_inv)

lemma kickoff_empty:
  assumes "queue s = []"
  shows "kickoff s max_workers = \<lparr>crawler = s, ops = [], futures = [], pc = AtWhile\<rparr>"
  using assms by (simp add: kickoff_def)

lemma kickoff_one:
  assumes "0 < max_workers" and "queue s = [url]"
  shows "kickoff s max_workers =
     \<lparr>crawler = s\<lparr>queue := [], visited := insert url (visited s)\<rparr>,
       ops = [Fetching url], futures = [0], pc = AtWhile\<rparr>"
proof -
  from assms have "nat (min (int (length (queue s))) max_workers) = 1"
    by (simp add: min_def)
  with assms(2) show ?thesis
    by (simp add: kickoff_def dispatch_def popleft_def)
qed

lemma kickoff_fresh:
  assumes "0 < max_workers"
  shows "kickoff (ThreadedCrawler_init seed B store) max_workers =
     \<lparr>crawler = (ThreadedCrawler_init seed B store)\<lparr>queue := [], visited := {seed}\<rparr>,
       ops = [Fetching seed], futures = [0], pc = AtWhile\<rparr>"
  using kickoff_one [OF assms, of "ThreadedCrawler_init seed B store" seed]
  by (simp add: ThreadedCrawler_init_def)

lemma kickoff_inv:
  assumes "0 < max_workers" and "length (queue s) \<le> 1" and "pages_crawled s \<le> max_pages s"
  shows "pool_inv (pages_crawled s) (length (requested s)) (kickoff s max_workers)"
proof (cases "queue s")
  case Nil
  then have "pool_idle (length (requested s)) (kickoff s max_workers) []"
    by (simp add: kickoff_empty pool_idle_def)
  moreover from Nil have "crawler (kickoff s max_workers) = s"
    by (simp add: kickoff_empty)
  ultimately show ?thesis
    using assms(3) unfolding pool_inv_def
    by (intro conjI exI [of _ "[]"]) auto
next
  case (Cons url rest)
  with assms(2) have q: "queue s = [url]" by simp
  note k = kickoff_one [OF assms(1) q]
  have "pool_busy (length (requested s)) (kickoff s max_workers) [] (Fetching url)"
    unfolding k by (simp add: pool_busy_def)
  moreover have "pages_crawled (crawler (kickoff s max_workers)) = pages_crawled s"
    "max_pages (crawler (kickoff s max_workers)) = max_pages s"
    unfolding k by simp_all
  ultimately show ?thesis
    using assms(3) unfolding pool_inv_def
    by (intro conjI exI [of _ "[]"]) auto
qed

lemma op_step_max_pages_pool:
  "max_pages (crawler (pool_step w p ev)) = max_pages (crawler p)"
proof (cases ev)
  case (Thread i)
  show ?thesis
  proof (cases "i < length (ops p)")
    case True
    obtain s1 x1 where "op_step w (crawler p) (ops p ! i) = (s1, x1)"
      by (cases "op_step w (crawler p) (ops p ! i)")
    with Thread True op_step_frame(2) [OF this] show ?thesis
      by (simp add: pool_step_def)
  next
    case False
    with Thread show ?thesis by (simp add: pool_step_def)
  qed
next
  case Coordinator
  then show ?thesis
    by (auto simp: pool_step_def main_step_def Let_def handle_done_pages
        split: main_pc.splits list.splits)
qed

lemma pool_run_max_pages: "max_pages (crawler (pool_run w sched p)) = max_pages (crawler p)"
  unfolding pool_run_def
  by (induction sched arbitrary: p) (simp_all add: op_step_max_pages_pool)

lemma finished_count:
  assumes "pool_inv p0 r0 p" and "pool_finished p"
  shows "pages_crawled (crawler p) - p0 =
     min (max_pages (crawler p) - p0) (int (length (requested (crawler p))) - int r0)"
    and "queue (crawler p) = [] \<or> max_pages (crawler p) \<le> pages_crawled (crawler p)"
    and "pages_crawled (crawler p) \<le> max_pages (crawler p)"
proof -
  from assms(1) obtain os where le: "pages_crawled (crawler p) \<le> max_pages (crawler p)"
    and n: "p0 + int (length os) = pages_crawled (crawler p)"
    and sh: "pool_idle r0 p os \<or> (\<exists>x. pool_busy r0 p os x)"
    by (auto simp: pool_inv_def)
  from sh have "pages_crawled (crawler p) - p0 =
     min (max_pages (crawler p) - p0) (int (length (requested (crawler p))) - int r0) \<and>
     (queue (crawler p) = [] \<or> max_pages (crawler p) \<le> pages_crawled (crawler p))"
  proof
    assume "pool_idle r0 p os"
    with le n show ?thesis by (auto simp: pool_idle_def)
  next
    assume "\<exists>x. pool_busy r0 p os x"
    then obtain x where b: "pool_busy r0 p os x" by blast
    with assms(2) have "max_pages (crawler p) \<le> pages_crawled (crawler p)"
      by (auto simp: pool_busy_def pool_finished_def)
    moreover from b have "r0 + length os \<le> length (requested (crawler p))"
      by (simp add: pool_busy_def)
    ultimately show ?thesis using le n by auto
  qed
  with le show "pages_crawled (crawler p) - p0 =
     min (max_pages (crawler p) - p0) (int (length (requested (crawler p))) - int r0)"
    and "queue (crawler p) = [] \<or> max_pages (crawler p) \<le> pages_crawled (crawler p)"
    and "pages_crawled (crawler p) \<le> max_pages (crawler p)"
    by simp_all
qed

lemma crawl_threaded_count:
  assumes "0 \<le> B"
    and "crawl_threaded w max_workers sched (ThreadedCrawler_init seed B store) = Returned s1"
  shows "pages_crawled s1 = min B (int (length (requested s1)))"
proof -
  let ?i = "ThreadedCrawler_init seed B store"
  let ?p = "pool_run w sched (kickoff ?i max_workers)"
  from assms(2) have mw: "0 < max_workers" and f: "pool_finished ?p" and e: "s1 = crawler ?p"
    by (auto simp: crawl_threaded_def Let_def split: if_splits)
  have "pool_inv (pages_crawled ?i) (length (requested ?i)) (kickoff ?i max_workers)"
    using assms(1) by (intro kickoff_inv mw) (simp_all add: ThreadedCrawler_init_def)
  then have "pool_inv 0 0 (kickoff ?i max_workers)"
    by (simp add: ThreadedCrawler_init_def)
  then have "pool_inv 0 0 ?p" by (rule pool_run_inv)
  from finished_count(1) [OF this f] have
    "pages_crawled (crawler ?p) = min (max_pages (crawler ?p)) (int (length (requested (crawler ?p))))"
    by simp
  moreover have "max_pages (crawler ?p) = B"
    unfolding pool_run_max_pages kickoff_fresh [OF mw]
    by (simp add: ThreadedCrawler_init_def)
  ultimately show ?thesis using e by simp
qed

subsection \<open>The worker pool started with the budget used up\<close>

text \<open>
  When the counter has reached the budget before the call, the kickoff still
  submits operations, but the coordinator leaves the loop at its first test and the
  counter stays as it is.
\<close>

definition pool_spent :: "int \<Rightarrow> pool \<Rightarrow> bool" where
  "pool_spent p0 p \<longleftrightarrow>
     pages_crawled (crawler p) = p0 \<and> max_pages (crawler p) \<le> p0 \<and>
     (pc p = AtWhile \<or> pc p = Shutdown)"

lemma dispatch_funpow_frame:
  "pages_crawled (crawler ((dispatch ^^ k) p)) = pages_crawled (crawler p) \<and>
   max_pages (crawler ((dispatch ^^ k) p)) = max_pages (crawler p) \<and>
   pc ((dispatch ^^ k) p) = pc p"
  by (induction k) (simp_all add: dispatch_frame)

lemma kickoff_spent:
  "max_pages s \<le> pages_crawled s \<Longrightarrow> pool_spent (pages_crawled s) (kickoff s max_workers)"
  by (simp add: pool_spent_def kickoff_def dispatch_funpow_frame)

lemma pool_step_spent: "pool_spent p0 p \<Longrightarrow> pool_spent p0 (pool_step w p ev)"
proof (cases ev)
  case (Thread i)
  assume a: "pool_spent p0 p"
  show ?thesis
  proof (cases "i < length (ops p)")
    case True
    obtain s1 x1 where "op_step w (crawler p) (ops p ! i) = (s1, x1)"
      by (cases "op_step w (crawler p) (ops p ! i)")
    with a Thread True op_step_frame(1,2) [OF this] show ?thesis
      by (simp add: pool_step_def pool_spent_def)
  next
    case False
    with a Thread show ?thesis by (simp add: pool_step_def)
  qed
next
  case Coordinator
  assume "pool_spent p0 p"
  with Coordinator show ?thesis
    by (auto simp: pool_step_def main_step_def pool_spent_def)
qed

lemma pool_run_spent: "pool_spent p0 p \<Longrightarrow> pool_spent p0 (pool_run w sched p)"
  unfolding pool_run_def
  by (induction sched arbitrary: p) (simp_all add: pool_step_spent)

subsection \<open>States that keep the budget\<close>

text \<open>
  A state keeps the budget when the counter is within it and either at most one URL
  waits in the queue or the budget is used up. The constructor's state is one (for a
  budget that is not negative), and every crawl method leaves one behind when it
  starts in one: these are the states an engine can be in between calls.
\<close>

definition keeps_budget :: "ThreadedCrawler \<Rightarrow> bool" where
  "keeps_budget s \<longleftrightarrow>
     pages_crawled s \<le> max_pages s \<and>
     (length (queue s) \<le> 1 \<or> max_pages s \<le> pages_crawled s)"

lemma crawl_threaded_keeps_budget:
  assumes "keeps_budget s" and "crawl_threaded w max_workers sched s = Returned s1"
  shows "keeps_budget s1 \<and> max_pages s1 = max_pages s"
proof -
  let ?p = "pool_run w sched (kickoff s max_workers)"
  from assms(2) have mw: "0 < max_workers" and f: "pool_finished ?p" and e: "s1 = crawler ?p"
    by (auto simp: crawl_threaded_def Let_def split: if_splits)
  have m: "max_pages (crawler ?p) = max_pages s"
    by (simp add: pool_run_max_pages kickoff_def dispatch_funpow_frame)
  show ?thesis
  proof (cases "max_pages s \<le> pages_crawled s")
    case True
    then have "pool_spent (pages_crawled s) ?p"
      by (intro pool_run_spent kickoff_spent)
    with assms(1) m True e show ?thesis
      by (simp add: pool_spent_def keeps_budget_def)
  next
    case False
    with assms(1) have "pool_inv (pages_crawled s) (length (requested s)) (kickoff s max_workers)"
      by (intro kickoff_inv mw) (simp_all add: keeps_budget_def)
    then have "pool_inv (pages_crawled s) (length (requested s)) ?p" by (rule pool_run_inv)
    from finished_count(2,3) [OF this f] m e show ?thesis
      by (auto simp: keeps_budget_def)
  qed
qed

lemma crawl_single_keeps_budget:
  assumes "keeps_budget s"
  shows "keeps_budget (crawl_single w s)"
proof -
  from assms have "pages_crawled (crawl_single w s) \<le> max_pages s"
    by (intro crawl_single_budget) (simp add: keeps_budget_def)
  with crawl_single_terminal [of w s] show ?thesis
    by (auto simp: keeps_budget_def crawl_single_max_pages)
qed

lemma run_calls_keeps_budget:
  "keeps_budget s \<Longrightarrow> run_calls w calls s = Returned s1 \<Longrightarrow>
   keeps_budget s1 \<and> max_pages s1 = max_pages s"
proof (induction calls arbitrary: s)
  case Nil
  then show ?case by simp
next
  case (Cons c calls)
  show ?case
  proof (cases c)
    case CrawlSingle
    with Cons.prems have r: "run_calls w calls (crawl_single w s) = Returned s1" by simp
    from Cons.IH [OF crawl_single_keeps_budget [OF Cons.prems(1)] r] show ?thesis
      by (simp add: crawl_single_max_pages)
  next
    case (CrawlThreaded n sched)
    with Cons.prems(2) obtain s2 where c: "crawl_threaded w n sched s = Returned s2"
      and r: "run_calls w calls s2 = Returned s1"
      by (auto split: outcome.splits)
    from crawl_threaded_keeps_budget [OF Cons.prems(1) c] Cons.IH [OF _ r] show ?thesis
      by simp
  qed
qed

lemma run_crawls_keeps_budget:
  "async_keeps_budget s \<Longrightarrow> run_crawls w calls s = Returned s1 \<Longrightarrow>
   async_keeps_budget s1 \<and> amax_pages s1 = amax_pages s"
proof (induction calls arbitrary: s)
  case Nil
  then show ?case by simp
next
  case (Cons c calls)
  obtain n sched where c: "c = (n, sched)" by (cases c)
  with Cons.prems(2) obtain s2 where k: "crawl w n sched s = Returned s2"
    and r: "run_crawls w calls s2 = Returned s1"
    by (auto split: outcome.splits)
  from crawl_keeps_budget [OF Cons.prems(1) k] Cons.IH [OF _ r] show ?case
    by simp
qed

subsection \<open>Repeating the sequential crawl\<close>




lemma map_outcome_Returned:
  "map_outcome f x = Returned v \<Longrightarrow> \<exists>s. x = Returned s \<and> f s = v"
  by (cases x) simp_all

section \<open>Small webs to run the crawlers on\<close>

definition overlap_web :: world where
  "overlap_web =
     \<lparr> http_get = (\<lambda>u. if u = ''http://a'' then Response 200 ''A''
                       else if u = ''http://b'' then Response 200 ''B''
                       else if u = ''http://c'' then Response 200 ''C''
                       else ConnectionError),
       anchors = (\<lambda>h. if h = ''A'' then [''http://b'', ''http://c'']
                      else if h = ''B'' then [''http://c''] else []),
       title_text = (\<lambda>h. []), body_text = (\<lambda>h. []),
       urljoin = (\<lambda>b h. h) \<rparr>"

definition relative_web :: world where
  "relative_web =
     \<lparr> http_get = (\<lambda>u. if u = ''http://a/'' then Response 200 ''A'' else ConnectionError),
       anchors = (\<lambda>h. if h = ''A'' then [''/about''] else []),
       title_text = (\<lambda>h. []), body_text = (\<lambda>h. []),
       urljoin = (\<lambda>b h. if b = ''http://a/'' \<and> h = ''/about'' then ''http://a/about'' else h) \<rparr>"

definition not_found_web :: world where
  "not_found_web =
     \<lparr> http_get = (\<lambda>u. Response 404 ''<a href=http://b>gone</a>''),
       anchors = (\<lambda>h. if h = ''<a href=http://b>gone</a>'' then [''http://b''] else []),
       title_text = (\<lambda>h. []), body_text = (\<lambda>h. []),
       urljoin = (\<lambda>b h. h) \<rparr>"

definition dead_web :: world where
  "dead_web =
     \<lparr> http_get = (\<lambda>u. ConnectionError), anchors = (\<lambda>h. []),
       title_text = (\<lambda>h. []), body_text = (\<lambda>h. []), urljoin = (\<lambda>b h. h) \<rparr>"

section \<open>The claims\<close>

text \<open>
  C5. The sequential strategy is this loop: while the queue is not empty and
  \<open>pages_crawled\<close> is below the budget, it pops the head of the queue (marking it
  visited), fetches it, and exactly when the content is not empty appends the page's
  links that pass the enqueue test to the queue and adds one to \<open>pages_crawled\<close>;
  an empty content changes neither. The function is total, so the loop always returns
  a state, and in that state the queue is empty or the budget is reached.
\<close>

theorem crawl_single_is_the_loop:
  "crawl_single w s =
     (if queue s \<noteq> [] \<and> pages_crawled s < max_pages s
      then crawl_single w (single_iteration w s) else s) \<and>
   visited (single_iteration w s) = insert (hd (queue s)) (visited s) \<and>
   requested (single_iteration w s) = requested s @ [hd (queue s)] \<and>
   queue (single_iteration w s) =
     (if fetch w (hd (queue s)) \<noteq> []
      then tl (queue s) @
        filter (\<lambda>h. startswith h ''http'' \<and> h \<notin> insert (hd (queue s)) (visited s))
          (anchors w (fetch w (hd (queue s))))
      else tl (queue s)) \<and>
   pages_crawled (single_iteration w s) =
     (if fetch w (hd (queue s)) \<noteq> [] then pages_crawled s + 1 else pages_crawled s) \<and>
   max_pages (single_iteration w s) = max_pages s \<and>
   (queue (crawl_single w s) = [] \<or> max_pages s \<le> pages_crawled (crawl_single w s))"
proof -
  have v: "visited (single_iteration w s) = insert (hd (queue s)) (visited s)"
    by (simp add: single_iteration_def popleft_def Let_def parse_frame)
  have r: "requested (single_iteration w s) = requested s @ [hd (queue s)]"
    by (simp add: single_iteration_def popleft_def Let_def parse_frame)
  show ?thesis
    using crawl_single_unfold [of w s] v r single_iteration_queue [of w s]
      single_iteration_pages [of w s] single_iteration_max_pages [of w s]
      crawl_single_terminal [of w s]
    by blast
qed

text \<open>
  C10. Constructing the threaded engine with a store configured empties the
  \<^verbatim>\<open>webpages\<close> collection, whatever documents it held, before any crawling.
\<close>

theorem init_deletes_all_documents:
  "collection (ThreadedCrawler_init seed_url maxp (Some docs)) = Some []"
  by (simp add: ThreadedCrawler_init_def)



text \<open>
  C7. A page at \<open>http://a/\<close> with the relative link \<open>/about\<close>.
  \<^verbatim>\<open>ThreadedCrawler.parse\<close> does not resolve the link against the page's URL: the
  link fails the prefix test and is dropped, so the queue stays empty.
  \<^verbatim>\<open>AsyncCrawler.parse\<close> resolves it with \<^verbatim>\<open>urljoin\<close> and enqueues
  \<open>http://a/about\<close>.
\<close>

theorem threaded_parse_drops_relative_link:
  "queue (parse relative_web
      \<lparr>queue = [], visited = {''http://a/''}, max_pages = 10, pages_crawled = 0,
        collection = None, requested = [''http://a/'']\<rparr> ''http://a/'' ''A'') = [] \<and>
   aqueue (async_parse relative_web
      \<lparr>aqueue = [], avisited = {''http://a/''}, amax_pages = 10, pages = 0,
        arequested = [''http://a/'']\<rparr> ''http://a/'' ''A'') = [''http://a/about'']"
  by (simp add: parse_def insert_one_def enqueue_href_def async_parse_def
      async_enqueue_href_def relative_web_def startswith_def Let_def)

text \<open>
  C8. A URL answered with status 404 and a page as body. \<^verbatim>\<open>ThreadedCrawler.fetch\<close>
  returns the empty string, since \<^verbatim>\<open>raise_for_status\<close> raises inside the \<^verbatim>\<open>try\<close>.
  \<^verbatim>\<open>AsyncCrawler.fetch\<close> never looks at the status and returns the body of the error
  page.
\<close>

theorem async_fetch_returns_error_page:
  "fetch not_found_web ''http://a'' = [] \<and>
   async_fetch not_found_web ''http://a'' = ''<a href=http://b>gone</a>''"
  by (simp add: fetch_def async_fetch_def get_response_def raise_for_status_def
      not_found_web_def)



text \<open>
  C2. A seed whose fetch fails, budget 5. The worker pool ends with
  \<open>pages_crawled = 1\<close> although no fetch returned any content: the coordinator adds
  one for the completed operation (line 87) without knowing what its fetch returned.
\<close>

theorem failed_fetch_counted_by_pool:
  "fetch dead_web ''http://a'' = [] \<and>
   map_outcome (\<lambda>s. (pages_crawled s, requested s))
     (crawl_threaded dead_web 10 [Thread 0, Coordinator, Coordinator, Coordinator, Coordinator]
        (ThreadedCrawler_init ''http://a'' 5 None)) = Returned (1, [''http://a''])"
  by (simp add: crawl_threaded_def pool_run_def pool_step_def main_step_def handle_done_def
      dispatch_def kickoff_def pool_finished_def popleft_def fetch_def get_response_def
      raise_for_status_def ThreadedCrawler_init_def dead_web_def Let_def)

text \<open>
  C2, as the code has it. Collecting a completed operation adds exactly one to
  \<open>pages_crawled\<close>, whatever the operation fetched. On a freshly constructed engine
  with a budget \<open>B \<ge> 0\<close>, every run that returns ends with \<open>pages_crawled\<close> equal to
  the smaller of \<open>B\<close> and the number of URLs requested, failed fetches included.
\<close>

theorem pool_counts_completions:
  "pages_crawled (crawler (handle_done p fut)) = pages_crawled (crawler p) + 1 \<and>
   (0 \<le> B \<longrightarrow>
    crawl_threaded w max_workers sched (ThreadedCrawler_init seed B store) = Returned s1 \<longrightarrow>
    pages_crawled s1 = min B (int (length (requested s1))))"
proof -
  have "pages_crawled s1 = min B (int (length (requested s1)))"
    if "0 \<le> B"
      and "crawl_threaded w max_workers sched (ThreadedCrawler_init seed B store) = Returned s1"
    using that by (rule crawl_threaded_count)
  then show ?thesis
    by (simp add: handle_done_pages)
qed

theorem pool_counts_completions_witness:
  "(0::int) \<le> 2 \<and>
   (\<exists>s1. crawl_threaded overlap_web 3
       [Thread 0, Thread 0, Thread 0, Thread 0, Coordinator, Coordinator, Coordinator,
        Thread 1, Thread 1, Thread 1, Coordinator, Coordinator, Coordinator, Coordinator,
        Thread 2, Thread 2]
       (ThreadedCrawler_init ''http://a'' 2 None) = Returned s1 \<and>
     requested s1 = [''http://a'', ''http://b'', ''http://c''] \<and>
     pages_crawled s1 = min 2 (int (length (requested s1))))"
proof -
  let ?r = "crawl_threaded overlap_web 3
       [Thread 0, Thread 0, Thread 0, Thread 0, Coordinator, Coordinator, Coordinator,
        Thread 1, Thread 1, Thread 1, Coordinator, Coordinator, Coordinator, Coordinator,
        Thread 2, Thread 2]
       (ThreadedCrawler_init ''http://a'' 2 None)"
  have "map_outcome requested ?r = Returned [''http://a'', ''http://b'', ''http://c'']"
    by (simp add: crawl_threaded_def pool_run_def pool_step_def main_step_def handle_done_def
        dispatch_def kickoff_def pool_finished_def popleft_def fetch_def get_response_def
        raise_for_status_def insert_one_def enqueue_href_def startswith_def
        ThreadedCrawler_init_def overlap_web_def Let_def)
  from map_outcome_Returned [OF this] obtain s1 where r: "?r = Returned s1"
    and q: "requested s1 = [''http://a'', ''http://b'', ''http://c'']"
    by (elim exE conjE)
  have h: "(0::int) \<le> 2" by simp
  note c = pool_counts_completions [THEN conjunct2, rule_format, OF h r]
  show ?thesis
  proof (intro conjI exI [of _ s1])
    show "(0::int) \<le> 2" by (rule h)
    show "?r = Returned s1" by (rule r)
    show "requested s1 = [''http://a'', ''http://b'', ''http://c'']" by (rule q)
    show "pages_crawled s1 = min 2 (int (length (requested s1)))" by (rule c)
  qed
qed

text \<open>
  C4. On a freshly constructed engine with a budget \<open>B \<ge> 0\<close>, the sequential crawl
  ends with \<open>pages_crawled \<le> B\<close>, and so does every run of the worker pool and of
  the asyncio workers that returns, for every number of workers and every schedule.
  The same holds at the end of any sequence of crawl calls on one engine, as the
  benchmark makes them.
\<close>

theorem budget_is_an_upper_bound:
  assumes "0 \<le> B"
  shows "pages_crawled (crawl_single w (ThreadedCrawler_init seed B store)) \<le> B \<and>
    (crawl_threaded w max_workers sched (ThreadedCrawler_init seed B store) = Returned s1 \<longrightarrow>
       pages_crawled s1 \<le> B) \<and>
    (crawl w concurrency asched (AsyncCrawler_init seed B) = Returned a1 \<longrightarrow> pages a1 \<le> B) \<and>
    (run_calls w calls (ThreadedCrawler_init seed B store) = Returned s2 \<longrightarrow>
       pages_crawled s2 \<le> B) \<and>
    (run_crawls w crawls (AsyncCrawler_init seed B) = Returned a2 \<longrightarrow> pages a2 \<le> B)"
proof -
  have t: "keeps_budget (ThreadedCrawler_init seed B store)"
    using assms by (simp add: keeps_budget_def ThreadedCrawler_init_def)
  have a: "async_keeps_budget (AsyncCrawler_init seed B)"
    using assms by (simp add: async_keeps_budget_def AsyncCrawler_init_def)
  have "pages_crawled (crawl_single w (ThreadedCrawler_init seed B store)) \<le> B"
    using crawl_single_keeps_budget [OF t, of w]
    by (simp add: keeps_budget_def crawl_single_max_pages ThreadedCrawler_init_def)
  moreover have "pages_crawled s1 \<le> B"
    if "crawl_threaded w max_workers sched (ThreadedCrawler_init seed B store) = Returned s1"
    using crawl_threaded_keeps_budget [OF t that]
    by (simp add: keeps_budget_def ThreadedCrawler_init_def)
  moreover have "pages a1 \<le> B"
    if "crawl w concurrency asched (AsyncCrawler_init seed B) = Returned a1"
    using crawl_keeps_budget [OF a that]
    by (simp add: async_keeps_budget_def AsyncCrawler_init_def)
  moreover have "pages_crawled s2 \<le> B"
    if "run_calls w calls (ThreadedCrawler_init seed B store) = Returned s2"
    using run_calls_keeps_budget [OF t that]
    by (simp add: keeps_budget_def ThreadedCrawler_init_def)
  moreover have "pages a2 \<le> B"
    if "run_crawls w crawls (AsyncCrawler_init seed B) = Returned a2"
    using run_crawls_keeps_budget [OF a that]
    by (simp add: async_keeps_budget_def AsyncCrawler_init_def)
  ultimately show ?thesis by blast
qed

theorem budget_is_an_upper_bound_witness:
  "(0::int) \<le> 2 \<and>
   pages_crawled (crawl_single overlap_web (ThreadedCrawler_init ''http://a'' 2 None)) \<le> 2 \<and>
   (\<exists>s1. crawl_threaded overlap_web 3
       [Thread 0, Thread 0, Thread 0, Thread 0, Coordinator, Coordinator, Coordinator,
        Thread 1, Thread 1, Thread 1, Coordinator, Coordinator, Coordinator, Coordinator,
        Thread 2, Thread 2]
       (ThreadedCrawler_init ''http://a'' 2 None) = Returned s1 \<and> pages_crawled s1 \<le> 2) \<and>
   (\<exists>a1. crawl overlap_web 3 [0, 0, 0] (AsyncCrawler_init ''http://a'' 2) = Returned a1 \<and>
      pages a1 \<le> 2) \<and>
   (\<exists>s2. run_calls overlap_web
       [CrawlSingle, CrawlThreaded 3 [Coordinator, Thread 0, Thread 0, Thread 1, Thread 1]]
       (ThreadedCrawler_init ''http://a'' 2 None) = Returned s2 \<and> pages_crawled s2 \<le> 2) \<and>
   (\<exists>a2. run_crawls overlap_web [(3, [0, 0, 0]), (3, [])]
       (AsyncCrawler_init ''http://a'' 2) = Returned a2 \<and> pages a2 \<le> 2)"
proof -
  let ?r = "crawl_threaded overlap_web 3
       [Thread 0, Thread 0, Thread 0, Thread 0, Coordinator, Coordinator, Coordinator,
        Thread 1, Thread 1, Thread 1, Coordinator, Coordinator, Coordinator, Coordinator,
        Thread 2, Thread 2]
       (ThreadedCrawler_init ''http://a'' 2 None)"
  let ?a = "crawl overlap_web 3 [0, 0, 0] (AsyncCrawler_init ''http://a'' 2)"
  let ?rs = "run_calls overlap_web
       [CrawlSingle, CrawlThreaded 3 [Coordinator, Thread 0, Thread 0, Thread 1, Thread 1]]
       (ThreadedCrawler_init ''http://a'' 2 None)"
  let ?as = "run_crawls overlap_web [(3, [0, 0, 0]), (3, [])] (AsyncCrawler_init ''http://a'' 2)"
  have "map_outcome pages_crawled ?r = Returned 2"
    by (simp add: crawl_threaded_def pool_run_def pool_step_def main_step_def handle_done_def
        dispatch_def kickoff_def pool_finished_def popleft_def fetch_def get_response_def
        raise_for_status_def insert_one_def enqueue_href_def startswith_def
        ThreadedCrawler_init_def overlap_web_def Let_def)
  from map_outcome_Returned [OF this] obtain s1 where r: "?r = Returned s1"
    by (elim exE conjE)
  have "map_outcome pages ?a = Returned 2"
    by (simp add: crawl_def gather_def resume_def worker_head_def worker_tail_def
        async_fetch_def async_parse_def async_enqueue_href_def get_response_def startswith_def
        AsyncCrawler_init_def overlap_web_def Let_def numeral_3_eq_3)
  from map_outcome_Returned [OF this] obtain a1 where a: "?a = Returned a1"
    by (elim exE conjE)
  have "map_outcome requested ?rs =
      Returned [''http://a'', ''http://b'', ''http://c'', ''http://c'']"
    by (simp add: crawl_single.simps single_iteration_def parse_def
        crawl_threaded_def pool_run_def pool_step_def main_step_def handle_done_def
        dispatch_def kickoff_def pool_finished_def popleft_def fetch_def get_response_def
        raise_for_status_def insert_one_def enqueue_href_def startswith_def
        ThreadedCrawler_init_def overlap_web_def Let_def numeral_2_eq_2)
  from map_outcome_Returned [OF this] obtain s2 where rs: "?rs = Returned s2"
    by (elim exE conjE)
  have "map_outcome pages ?as = Returned 2"
    by (simp add: crawl_def gather_def resume_def worker_head_def worker_tail_def
        async_fetch_def async_parse_def async_enqueue_href_def get_response_def startswith_def
        AsyncCrawler_init_def overlap_web_def Let_def numeral_3_eq_3)
  from map_outcome_Returned [OF this] obtain a2 where as: "?as = Returned a2"
    by (elim exE conjE)
  have h: "(0::int) \<le> 2" by simp
  note c = budget_is_an_upper_bound [OF h]
  show ?thesis
  proof (intro conjI)
    show "(0::int) \<le> 2" by (rule h)
    show "pages_crawled (crawl_single overlap_web (ThreadedCrawler_init ''http://a'' 2 None)) \<le> 2"
      by (rule c [THEN conjunct1])
    show "\<exists>s1. ?r = Returned s1 \<and> pages_crawled s1 \<le> 2"
      using r c [THEN conjunct2, THEN conjunct1, rule_format, OF r]
      by (intro exI [of _ s1] conjI)
    show "\<exists>a1. ?a = Returned a1 \<and> pages a1 \<le> 2"
      using a c [THEN conjunct2, THEN conjunct2, THEN conjunct1, rule_format, OF a]
      by (intro exI [of _ a1] conjI)
    show "\<exists>s2. ?rs = Returned s2 \<and> pages_crawled s2 \<le> 2"
      using rs c [THEN conjunct2, THEN conjunct2, THEN conjunct2, THEN conjunct1, rule_format, OF rs]
      by (intro exI [of _ s2] conjI)
    show "\<exists>a2. ?as = Returned a2 \<and> pages a2 \<le> 2"
      using as c [THEN conjunct2, THEN conjunct2, THEN conjunct2, THEN conjunct2, rule_format, OF as]
      by (intro exI [of _ a2] conjI)
  qed
qed



text \<open>
  C6. The part of a worker's iteration that follows the response adds exactly one to
  \<open>pages\<close>, and when the fetch gave the empty string that is all it does. So every
  crawl that returns has raised \<open>pages\<close> by the number of URLs its workers popped and
  requested.
\<close>

theorem worker_counts_every_iteration:
  "pages (worker_tail w s url) = pages s + 1 \<and>
   (async_fetch w url = [] \<longrightarrow> worker_tail w s url = s\<lparr>pages := pages s + 1\<rparr>) \<and>
   (crawl w concurrency sched s = Returned s1 \<longrightarrow>
      pages s1 - pages s = int (length (arequested s1)) - int (length (arequested s)))"
proof (intro conjI impI)
  show "pages (worker_tail w s url) = pages s + 1"
    by (simp add: worker_tail_frame)
  show "worker_tail w s url = s\<lparr>pages := pages s + 1\<rparr>" if "async_fetch w url = []"
    using that by (simp add: worker_tail_def)
  show "pages s1 - pages s = int (length (arequested s1)) - int (length (arequested s))"
    if "crawl w concurrency sched s = Returned s1"
    using that by (rule crawl_count)
qed

theorem worker_counts_every_iteration_witness:
  "async_fetch dead_web ''http://a'' = [] \<and>
   worker_tail dead_web (fst (worker_head (AsyncCrawler_init ''http://a'' 5))) ''http://a'' =
     (fst (worker_head (AsyncCrawler_init ''http://a'' 5)))
       \<lparr>pages := pages (fst (worker_head (AsyncCrawler_init ''http://a'' 5))) + 1\<rparr> \<and>
   (\<exists>s1. crawl dead_web 2 [0] (AsyncCrawler_init ''http://a'' 5) = Returned s1 \<and>
      arequested s1 = [''http://a''] \<and>
      pages s1 - pages (AsyncCrawler_init ''http://a'' 5) =
        int (length (arequested s1)) - int (length (arequested (AsyncCrawler_init ''http://a'' 5))))"
proof -
  let ?i = "AsyncCrawler_init ''http://a'' 5"
  have f: "async_fetch dead_web ''http://a'' = []"
    by (simp add: async_fetch_def get_response_def dead_web_def)
  have "map_outcome arequested (crawl dead_web 2 [0] ?i) = Returned [''http://a'']"
    by (simp add: crawl_def gather_def resume_def worker_head_def worker_tail_def
        async_fetch_def get_response_def AsyncCrawler_init_def dead_web_def Let_def
        numeral_2_eq_2)
  from map_outcome_Returned [OF this] obtain s1
    where r: "crawl dead_web 2 [0] ?i = Returned s1" and q: "arequested s1 = [''http://a'']"
    by (elim exE conjE)
  note c = worker_counts_every_iteration [of dead_web _ "''http://a''"]
  show ?thesis
  proof (intro conjI exI [of _ s1])
    show "async_fetch dead_web ''http://a'' = []" by (rule f)
    show "worker_tail dead_web (fst (worker_head ?i)) ''http://a'' =
        (fst (worker_head ?i))\<lparr>pages := pages (fst (worker_head ?i)) + 1\<rparr>"
      by (rule c [THEN conjunct2, THEN conjunct1, rule_format, OF f])
    show "crawl dead_web 2 [0] ?i = Returned s1" by (rule r)
    show "arequested s1 = [''http://a'']" by (rule q)
    show "pages s1 - pages ?i = int (length (arequested s1)) - int (length (arequested ?i))"
      by (rule c [THEN conjunct2, THEN conjunct2, rule_format, OF r])
  qed
qed

end
